theory Spec2Isabelle
  imports Main "HOL-Library.Option_ord" "HOL-Library.Char_ord"
begin

section \<open>Data model\<close>

text \<open>
  A naive \<^verbatim>\<open>datetime\<close> is represented by the number of microseconds elapsed since
  \<^verbatim>\<open>datetime.min\<close> (0001-01-01 00:00:00); Python compares naive datetimes exactly as
  these numbers compare. Timezone-aware datetimes are outside the model.
\<close>

type_synonym datetime = nat

definition datetime_min :: datetime where
  "datetime_min = 0"

text \<open>
  The dataclass \<^verbatim>\<open>HistoricalValue\<close>. An absent \<^verbatim>\<open>date\<close> or \<^verbatim>\<open>details\<close> is \<^verbatim>\<open>None\<close>.
  \<^verbatim>\<open>UsernameValue\<close> adds no field; \<^verbatim>\<open>InviteValue\<close> adds \<^verbatim>\<open>hash\<close>.
\<close>

record HistoricalValue =
  "value" :: string
  date :: "datetime option"
  details :: "string option"
  is_strikethrough :: bool

text \<open>The constructor the dataclass generates for \<^verbatim>\<open>HistoricalValue\<close>.\<close>

definition HistoricalValue_new ::
  "string \<Rightarrow> datetime option \<Rightarrow> string option \<Rightarrow> bool \<Rightarrow> HistoricalValue" where
  "HistoricalValue_new v d det st = \<lparr>value = v, date = d, details = det, is_strikethrough = st\<rparr>"

type_synonym UsernameValue = HistoricalValue

record InviteValue = HistoricalValue +
  hash :: string

record 'v HistoricalCollection =
  "values" :: "'v list"

section \<open>Python built-ins used by the collections\<close>

text \<open>
  \<^verbatim>\<open>sorted(xs, key=k, reverse=True)\<close>: CPython reverses the list, sorts it stably in
  ascending key order and reverses the result, so that elements with equal keys keep
  their original relative order.
\<close>

definition py_sorted_reverse :: "('a \<Rightarrow> 'k::linorder) \<Rightarrow> 'a list \<Rightarrow> 'a list" where
  "py_sorted_reverse k xs = rev (sort_key k (rev xs))"

text \<open>
  \<^verbatim>\<open>max(xs, key=k)\<close> and \<^verbatim>\<open>min(xs, key=k)\<close> on a non-empty list: the running best
  is replaced only by a strictly greater (strictly smaller) key, so the first of
  several extremal items is returned.
\<close>

fun py_max_loop :: "('a \<Rightarrow> 'k::linorder) \<Rightarrow> 'a \<Rightarrow> 'a list \<Rightarrow> 'a" where
  "py_max_loop k best [] = best"
| "py_max_loop k best (v # vs) = py_max_loop k (if k v > k best then v else best) vs"

fun py_min_loop :: "('a \<Rightarrow> 'k::linorder) \<Rightarrow> 'a \<Rightarrow> 'a list \<Rightarrow> 'a" where
  "py_min_loop k best [] = best"
| "py_min_loop k best (v # vs) = py_min_loop k (if k v < k best then v else best) vs"

section \<open>HistoricalCollection\<close>

text \<open>The sort key \<^verbatim>\<open>lambda v: v.date if v.date else datetime.min\<close>.\<close>

definition sort_date_key :: "'a HistoricalValue_scheme \<Rightarrow> datetime" where
  "sort_date_key v = (case date v of Some d \<Rightarrow> d | None \<Rightarrow> datetime_min)"

definition HistoricalCollection_init ::
  "'a HistoricalValue_scheme list \<Rightarrow> 'a HistoricalValue_scheme HistoricalCollection" where
  "HistoricalCollection_init vs = \<lparr>values = py_sorted_reverse sort_date_key vs\<rparr>"

text \<open>
  \<^verbatim>\<open>latest\<close>. The key of \<^verbatim>\<open>max\<close> is \<^verbatim>\<open>v.date\<close>; it is only ever applied to values
  whose date is present, where the order on \<open>datetime option\<close> is the order on dates.
\<close>

definition latest ::
  "'a HistoricalValue_scheme HistoricalCollection \<Rightarrow> bool \<Rightarrow> 'a HistoricalValue_scheme option" where
  "latest c allow_strikethrough =
     (if values c = [] then None
      else
        let candidates = (if allow_strikethrough then values c
                          else filter (\<lambda>v. \<not> is_strikethrough v) (values c))
        in if candidates = [] then None
           else
             let with_dates = filter (\<lambda>v. date v \<noteq> None) candidates;
                 without_dates = filter (\<lambda>v. date v = None) candidates
             in (case with_dates of
                   x # xs \<Rightarrow> Some (py_max_loop date x xs)
                 | [] \<Rightarrow> (case without_dates of [] \<Rightarrow> None | w # _ \<Rightarrow> Some w)))"

definition oldest ::
  "'a HistoricalValue_scheme HistoricalCollection \<Rightarrow> 'a HistoricalValue_scheme option" where
  "oldest c =
     (if values c = [] then None
      else
        let with_dates = filter (\<lambda>v. date v \<noteq> None) (values c);
            without_dates = filter (\<lambda>v. date v = None) (values c)
        in (case with_dates of
              x # xs \<Rightarrow> Some (py_min_loop date x xs)
            | [] \<Rightarrow> (if without_dates = [] then None else Some (last without_dates))))"

definition active ::
  "'a HistoricalValue_scheme HistoricalCollection \<Rightarrow> 'a HistoricalValue_scheme list" where
  "active c =
     (let active_values = filter (\<lambda>v. \<not> is_strikethrough v) (values c)
      in py_sorted_reverse sort_date_key active_values)"

text \<open>\<^verbatim>\<open>InviteCollection.get_hashes\<close>.\<close>

definition get_hashes :: "'a InviteValue_scheme HistoricalCollection \<Rightarrow> bool \<Rightarrow> string list" where
  "get_hashes c allow_strikethrough =
     (let vals = (if allow_strikethrough then values c else active c)
      in map hash vals)"

section \<open>Python string built-ins\<close>

text \<open>
  A Python \<^verbatim>\<open>str\<close> is modelled as a \<open>string\<close> whose characters are the code points
  below 256; the documents handled are ASCII. The whitespace removed by
  \<^verbatim>\<open>str.strip()\<close> is, in that range: tab, line feed, vertical tab, form feed,
  carriage return, the four separators 0x1C to 0x1F, space, 0x85 and 0xA0.
\<close>

definition py_isspace :: "char \<Rightarrow> bool" where
  "py_isspace c = (c \<in> set [CHR 0x09, CHR 0x0A, CHR 0x0B, CHR 0x0C, CHR 0x0D,
                             CHR 0x1C, CHR 0x1D, CHR 0x1E, CHR 0x1F, CHR 0x20,
                             CHR 0x85, CHR 0xA0])"

text \<open>\<^verbatim>\<open>s.strip()\<close> and \<^verbatim>\<open>s.strip(chars)\<close>: both ends, every leading and trailing occurrence.\<close>

definition py_strip :: "string \<Rightarrow> string" where
  "py_strip s = rev (dropWhile py_isspace (rev (dropWhile py_isspace s)))"

definition py_strip_chars :: "string \<Rightarrow> string \<Rightarrow> string" where
  "py_strip_chars chars s =
     rev (dropWhile (\<lambda>c. c \<in> set chars) (rev (dropWhile (\<lambda>c. c \<in> set chars) s)))"

definition py_startswith :: "string \<Rightarrow> string \<Rightarrow> bool" where
  "py_startswith s p = (take (length p) s = p)"

text \<open>\<^verbatim>\<open>sub in s\<close>.\<close>

fun py_contains :: "string \<Rightarrow> string \<Rightarrow> bool" where
  "py_contains sub [] = (sub = [])"
| "py_contains sub (c # cs) = (py_startswith (c # cs) sub \<or> py_contains sub cs)"

text \<open>
  \<^verbatim>\<open>s.replace(old, new)\<close>: every non-overlapping occurrence, scanning from the left.
  For an empty \<^verbatim>\<open>old\<close> Python inserts \<^verbatim>\<open>new\<close> before every character and at the end.
\<close>

function py_replace_scan :: "string \<Rightarrow> string \<Rightarrow> string \<Rightarrow> string" where
  "py_replace_scan old new [] = []"
| "py_replace_scan old new (c # cs) =
     (if old \<noteq> [] \<and> py_startswith (c # cs) old
      then new @ py_replace_scan old new (drop (length old) (c # cs))
      else c # py_replace_scan old new cs)"
  by pat_completeness auto
termination
  by (relation "measure (\<lambda>(old, new, s). length s)") (auto simp: neq_Nil_conv)

definition py_replace :: "string \<Rightarrow> string \<Rightarrow> string \<Rightarrow> string" where
  "py_replace s old new =
     (if old = [] then new @ concat (map (\<lambda>c. c # new) s) else py_replace_scan old new s)"

text \<open>\<^verbatim>\<open>s.lower()\<close>, character by character on the code points below 256.\<close>

definition py_lower_char :: "char \<Rightarrow> char" where
  "py_lower_char c =
     (let n = (of_char c :: nat)
      in if (65 \<le> n \<and> n \<le> 90) \<or> (192 \<le> n \<and> n \<le> 222 \<and> n \<noteq> 215)
         then char_of (n + 32) else c)"

definition py_lower :: "string \<Rightarrow> string" where
  "py_lower s = map py_lower_char s"

text \<open>
  \<^verbatim>\<open>repr(s)\<close> as the \<^verbatim>\<open>!r\<close> conversion of an f-string renders it: single quotes unless
  the text has a single quote and no double quote; the quote and the backslash are
  escaped, tab, line feed and carriage return are written symbolically, and every other
  non-printable code point as \<^verbatim>\<open>\xNN\<close>.
\<close>

definition hex_digit :: "nat \<Rightarrow> char" where
  "hex_digit n = (if n < 10 then char_of (48 + n) else char_of (87 + n))"

definition py_repr_char :: "char \<Rightarrow> char \<Rightarrow> string" where
  "py_repr_char q c =
     (let n = (of_char c :: nat)
      in if c = q \<or> c = CHR 0x5C then [CHR 0x5C, c]
         else if c = CHR 0x09 then [CHR 0x5C, CHR ''t'']
         else if c = CHR 0x0A then [CHR 0x5C, CHR ''n'']
         else if c = CHR 0x0D then [CHR 0x5C, CHR ''r'']
         else if n < 32 \<or> n = 127 \<or> (128 \<le> n \<and> n \<le> 160) \<or> n = 173
         then [CHR 0x5C, CHR ''x'', hex_digit (n div 16), hex_digit (n mod 16)]
         else [c])"

definition py_repr :: "string \<Rightarrow> string" where
  "py_repr s =
     (let q = (if CHR 0x27 \<in> set s \<and> CHR 0x22 \<notin> set s then CHR 0x22 else CHR 0x27)
      in q # concat (map (py_repr_char q) s) @ [q])"

text \<open>
  \<^verbatim>\<open>int(s)\<close> in base ten: surrounding whitespace is ignored, one sign may lead, and
  the decimal digits may be grouped by single underscores between digits. The whitespace
  \<^verbatim>\<open>int\<close> ignores is that of \<^verbatim>\<open>str.strip()\<close> without the four separators 0x1C to
  0x1F, which \<^verbatim>\<open>int\<close> refuses. A literal with
  more digits than \<^verbatim>\<open>sys.int_info.default_max_str_digits\<close>, which is 4300, is refused;
  the count includes leading zeros and leaves out the sign and the underscores. The
  result is \<open>None\<close> where Python raises \<^verbatim>\<open>ValueError\<close>. Among the code points below 256
  the decimal digits are 0 to 9.
\<close>

definition py_isdigit :: "char \<Rightarrow> bool" where
  "py_isdigit c = (CHR ''0'' \<le> c \<and> c \<le> CHR ''9'')"

definition digit_value :: "char \<Rightarrow> int" where
  "digit_value c = int (of_char c) - 48"

fun py_int_digits :: "int \<Rightarrow> bool \<Rightarrow> string \<Rightarrow> int option" where
  "py_int_digits acc prev_digit [] = (if prev_digit then Some acc else None)"
| "py_int_digits acc prev_digit (c # cs) =
     (if py_isdigit c then py_int_digits (10 * acc + digit_value c) True cs
      else if c = CHR ''_'' \<and> prev_digit then py_int_digits acc False cs
      else None)"

definition int_max_str_digits :: nat where
  "int_max_str_digits = 4300"

definition py_int_limited :: "string \<Rightarrow> int option" where
  "py_int_limited body =
     (case py_int_digits 0 False body of
        None \<Rightarrow> None
      | Some n \<Rightarrow>
          if int_max_str_digits < length (filter py_isdigit body) then None else Some n)"

definition py_int_isspace :: "char \<Rightarrow> bool" where
  "py_int_isspace c = (c \<in> set [CHR 0x09, CHR 0x0A, CHR 0x0B, CHR 0x0C, CHR 0x0D, CHR 0x20,
                                 CHR 0x85, CHR 0xA0])"

definition py_int :: "string \<Rightarrow> int option" where
  "py_int s =
     (case rev (dropWhile py_int_isspace (rev (dropWhile py_int_isspace s))) of
        [] \<Rightarrow> None
      | c # cs \<Rightarrow>
          if c = CHR ''-'' then map_option uminus (py_int_limited cs)
          else if c = CHR ''+'' then py_int_limited cs
          else py_int_limited (c # cs))"






text \<open>
  The two regular expressions, as \<^verbatim>\<open>re.match\<close> applies them. The character class
  consumes the longest run it can; \<^verbatim>\<open>$\<close> then matches at the end of the text or just
  before a line feed that ends the text.
\<close>

definition re_dollar :: "string \<Rightarrow> bool" where
  "re_dollar rest = (rest = [] \<or> rest = [CHR 0x0A])"

definition is_username_char :: "char \<Rightarrow> bool" where
  "is_username_char c =
     ((CHR ''a'' \<le> c \<and> c \<le> CHR ''z'') \<or> (CHR ''A'' \<le> c \<and> c \<le> CHR ''Z'')
      \<or> (CHR ''0'' \<le> c \<and> c \<le> CHR ''9'') \<or> c = CHR ''_'')"

definition username_re_match :: "string \<Rightarrow> bool" where
  "username_re_match s =
     (let n = length (takeWhile is_username_char s)
      in 5 \<le> n \<and> n \<le> 32 \<and> re_dollar (dropWhile is_username_char s))"

definition is_hash_char :: "char \<Rightarrow> bool" where
  "is_hash_char c =
     ((CHR ''a'' \<le> c \<and> c \<le> CHR ''z'') \<or> (CHR ''A'' \<le> c \<and> c \<le> CHR ''Z'')
      \<or> (CHR ''0'' \<le> c \<and> c \<le> CHR ''9'') \<or> c = CHR ''_'' \<or> c = CHR ''-'')"

definition invite_hash_re_match :: "string \<Rightarrow> bool" where
  "invite_hash_re_match s =
     (1 \<le> length (takeWhile is_hash_char s) \<and> re_dollar (dropWhile is_hash_char s))"

section \<open>Exceptions\<close>

text \<open>
  Each exception class is a constructor carrying the message. The classes for an
  invalid username, invite, status and type derive from \<^verbatim>\<open>InvalidFieldError\<close>, so an
  \<^verbatim>\<open>except InvalidFieldError\<close> clause catches them as well.
\<close>

datatype error =
    TelegramMDMLError string
  | ValidationError string
  | MissingFieldError string
  | InvalidFieldError string
  | InvalidUsernameError string
  | InvalidInviteError string
  | InvalidStatusError string
  | InvalidTypeError string

fun error_str :: "error \<Rightarrow> string" where
  "error_str (TelegramMDMLError m) = m"
| "error_str (ValidationError m) = m"
| "error_str (MissingFieldError m) = m"
| "error_str (InvalidFieldError m) = m"
| "error_str (InvalidUsernameError m) = m"
| "error_str (InvalidInviteError m) = m"
| "error_str (InvalidStatusError m) = m"
| "error_str (InvalidTypeError m) = m"

fun isinstance_InvalidFieldError :: "error \<Rightarrow> bool" where
  "isinstance_InvalidFieldError (InvalidFieldError m) = True"
| "isinstance_InvalidFieldError (InvalidUsernameError m) = True"
| "isinstance_InvalidFieldError (InvalidInviteError m) = True"
| "isinstance_InvalidFieldError (InvalidStatusError m) = True"
| "isinstance_InvalidFieldError (InvalidTypeError m) = True"
| "isinstance_InvalidFieldError e = False"

section \<open>Validated value types\<close>

text \<open>
  \<^verbatim>\<open>UsernameValue(value, date, details, is_strikethrough)\<close>: the generated
  constructor stores the fields and runs \<^verbatim>\<open>__post_init__\<close>.
\<close>

definition UsernameValue_post_init :: "UsernameValue \<Rightarrow> error + UsernameValue" where
  "UsernameValue_post_init self =
     (let self = (if py_startswith (value self) ''@''
                  then self\<lparr>value := drop 1 (value self)\<rparr> else self)
      in if \<not> username_re_match (value self)
         then Inl (InvalidUsernameError
                (''Invalid username format: '' @ py_repr (value self) @ ''. ''
                 @ ''Must be 5-32 characters, alphanumeric and underscore only.''))
         else Inr self)"

definition UsernameValue_new ::
  "string \<Rightarrow> datetime option \<Rightarrow> string option \<Rightarrow> bool \<Rightarrow> error + UsernameValue" where
  "UsernameValue_new v d det st =
     UsernameValue_post_init \<lparr>value = v, date = d, details = det, is_strikethrough = st\<rparr>"

definition with_at :: "UsernameValue \<Rightarrow> string" where
  "with_at self = ''@'' @ value self"

text \<open>
  \<^verbatim>\<open>InviteValue\<close>: \<^verbatim>\<open>__post_init__\<close> always assigns \<^verbatim>\<open>hash\<close>, so the default of the
  field is never observed.
\<close>

definition InviteValue_post_init :: "HistoricalValue \<Rightarrow> error + InviteValue" where
  "InviteValue_post_init self =
     (let (v, h) =
            (if py_startswith (value self) ''https://t.me/+''
             then (value self, py_replace (value self) ''https://t.me/+'' [])
             else if py_startswith (value self) ''http://t.me/+''
             then (value self, py_replace (value self) ''http://t.me/+'' [])
             else if py_startswith (value self) ''+''
             then (''https://t.me/'' @ value self, drop 1 (value self))
             else (''https://t.me/+'' @ value self, value self))
      in if \<not> invite_hash_re_match h
         then Inl (InvalidInviteError
                (''Invalid invite hash format: '' @ py_repr h @ ''. ''
                 @ ''Must contain only alphanumeric characters, dashes, and underscores.''))
         else Inr \<lparr>value = v, date = date self, details = details self,
                    is_strikethrough = is_strikethrough self, hash = h\<rparr>)"

definition InviteValue_new ::
  "string \<Rightarrow> datetime option \<Rightarrow> string option \<Rightarrow> bool \<Rightarrow> error + InviteValue" where
  "InviteValue_new v d det st =
     InviteValue_post_init \<lparr>value = v, date = d, details = det, is_strikethrough = st\<rparr>"

definition url :: "InviteValue \<Rightarrow> string" where
  "url self = value self"

section \<open>The parsed document\<close>

text \<open>
  Modelled from the spec: the document model of the external parser package
  (\<^verbatim>\<open>mdml\<close>), which is not part of the repository. A field value carries its raw text,
  an optional parsed point in time, optional details, the strikethrough flag and an
  optional link target; a field is the ordered list of its values; a document answers
  \<^verbatim>\<open>get_field(name)\<close> and \<^verbatim>\<open>get_value(name)\<close> with a field, respectively a single
  value, or nothing. Field and value objects count as true in a condition.
\<close>

record FieldValue =
  fv_value :: string
  fv_datetime_obj :: "datetime option"
  fv_details :: "string option"
  fv_is_strikethrough :: bool
  fv_link_url :: "string option"

record Field =
  field_values :: "FieldValue list"

record Document =
  get_field :: "string \<Rightarrow> Field option"
  get_value :: "string \<Rightarrow> FieldValue option"

section \<open>TelegramEntity\<close>

definition backquote :: string where
  "backquote = [CHR 0x60]"

definition get_id :: "Document \<Rightarrow> error + int option" where
  "get_id doc =
     (case get_value doc ''id'' of
        None \<Rightarrow> Inr None
      | Some v \<Rightarrow>
          (let id_str = py_strip (py_strip_chars backquote (fv_value v))
           in case py_int id_str of
                Some n \<Rightarrow> Inr (Some n)
              | None \<Rightarrow> Inl (InvalidFieldError (''Invalid ID format: '' @ py_repr (fv_value v)))))"

definition VALID_TYPES :: "string list" where
  "VALID_TYPES = [''bot'', ''user'', ''channel'', ''group'', ''unknown'']"

definition get_type :: "Document \<Rightarrow> error + string" where
  "get_type doc =
     (case get_value doc ''type'' of
        None \<Rightarrow> Inl (MissingFieldError ''Field 'type' is required'')
      | Some v \<Rightarrow>
          (let entity_type = py_lower (py_strip (py_strip_chars backquote (fv_value v)))
           in if entity_type \<notin> set VALID_TYPES
              then Inl (InvalidTypeError
                     (''Invalid type: '' @ py_repr entity_type @ ''. ''
                      @ ''Must be one of: bot, channel, group, unknown, user''))
              else Inr entity_type))"

text \<open>
  The loop of \<^verbatim>\<open>get_usernames\<close>, with the list \<^verbatim>\<open>usernames\<close> as accumulator. Only an
  \<^verbatim>\<open>InvalidUsernameError\<close> is caught; any other exception would leave the loop.
\<close>

fun get_usernames_loop :: "FieldValue list \<Rightarrow> UsernameValue list \<Rightarrow> error + UsernameValue list" where
  "get_usernames_loop [] usernames = Inr usernames"
| "get_usernames_loop (field_value # rest) usernames =
     (let raw_value = py_strip (py_strip_chars backquote (fv_value field_value))
      in if \<not> py_startswith raw_value ''@'' then get_usernames_loop rest usernames
         else
           (case UsernameValue_new raw_value (fv_datetime_obj field_value)
                   (fv_details field_value) (fv_is_strikethrough field_value) of
              Inr username \<Rightarrow> get_usernames_loop rest (usernames @ [username])
            | Inl (InvalidUsernameError m) \<Rightarrow> get_usernames_loop rest usernames
            | Inl e \<Rightarrow> Inl e))"

text \<open>
  The projection of one item of the \<open>username\<close> field as the specification words it:
  the item is kept when its stripped text starts with the handle marker and the text
  after the marker passes the handle validation; the handle then carries the item's
  date, details and strikethrough flag.
\<close>

definition stripped_text :: "FieldValue \<Rightarrow> string" where
  "stripped_text fv = py_strip (py_strip_chars backquote (fv_value fv))"

definition is_valid_handle_item :: "FieldValue \<Rightarrow> bool" where
  "is_valid_handle_item fv =
     (py_startswith (stripped_text fv) ''@'' \<and> username_re_match (drop 1 (stripped_text fv)))"

definition handle_of_item :: "FieldValue \<Rightarrow> UsernameValue" where
  "handle_of_item fv =
     \<lparr>value = drop 1 (stripped_text fv), date = fv_datetime_obj fv,
      details = fv_details fv, is_strikethrough = fv_is_strikethrough fv\<rparr>"

definition get_usernames :: "Document \<Rightarrow> error + UsernameValue HistoricalCollection" where
  "get_usernames doc =
     (case get_field doc ''username'' of
        None \<Rightarrow> Inr (HistoricalCollection_init [])
      | Some field \<Rightarrow>
          (case get_usernames_loop (field_values field) [] of
             Inl e \<Rightarrow> Inl e
           | Inr usernames \<Rightarrow> Inr (HistoricalCollection_init usernames)))"

text \<open>
  The loop of \<^verbatim>\<open>get_invites\<close>. A link target that is absent or empty is false in the
  condition, as is an empty raw text.
\<close>

fun get_invites_loop :: "FieldValue list \<Rightarrow> InviteValue list \<Rightarrow> error + InviteValue list" where
  "get_invites_loop [] invites = Inr invites"
| "get_invites_loop (field_value # rest) invites =
     (let raw_value =
            (case fv_link_url field_value of
               Some l \<Rightarrow> (if l \<noteq> [] then Some l
                           else if fv_value field_value \<noteq> []
                           then Some (py_strip (py_strip_chars backquote (fv_value field_value)))
                           else None)
             | None \<Rightarrow> (if fv_value field_value \<noteq> []
                          then Some (py_strip (py_strip_chars backquote (fv_value field_value)))
                          else None))
      in case raw_value of
           None \<Rightarrow> get_invites_loop rest invites
         | Some raw \<Rightarrow>
             if raw = [] then get_invites_loop rest invites
             else if \<not> py_contains ''t.me/+'' raw \<and> \<not> py_startswith raw ''+''
             then get_invites_loop rest invites
             else
               (case InviteValue_new raw (fv_datetime_obj field_value)
                       (fv_details field_value) (fv_is_strikethrough field_value) of
                  Inr invite \<Rightarrow> get_invites_loop rest (invites @ [invite])
                | Inl (InvalidInviteError m) \<Rightarrow> get_invites_loop rest invites
                | Inl e \<Rightarrow> Inl e))"

definition get_invites :: "Document \<Rightarrow> error + InviteValue HistoricalCollection" where
  "get_invites doc =
     (case get_field doc ''invite'' of
        None \<Rightarrow> Inr (HistoricalCollection_init [])
      | Some field \<Rightarrow>
          (case get_invites_loop (field_values field) [] of
             Inl e \<Rightarrow> Inl e
           | Inr invites \<Rightarrow> Inr (HistoricalCollection_init invites)))"

text \<open>
  \<^verbatim>\<open>validate\<close>. Each \<^verbatim>\<open>try\<close> catches the classes its \<^verbatim>\<open>except\<close> clauses name and lets
  any other exception through, which is the result \<open>Inl\<close> here.
\<close>

definition no_identifier_warning :: string where
  "no_identifier_warning = ''Entity has no identifier (id, username, or invite)''"

definition validate :: "Document \<Rightarrow> error + string list" where
  "validate doc =
     (case (case get_type doc of
              Inr t \<Rightarrow> Inr []
            | Inl (MissingFieldError m) \<Rightarrow> Inr [m]
            | Inl (InvalidTypeError m) \<Rightarrow> Inr [m]
            | Inl e \<Rightarrow> Inl e) of
        Inl e \<Rightarrow> Inl e
      | Inr warnings1 \<Rightarrow>
     (case (case get_id doc of
              Inr i \<Rightarrow> Inr warnings1
            | Inl e \<Rightarrow> if isinstance_InvalidFieldError e
                        then Inr (warnings1 @ [error_str e]) else Inl e) of
        Inl e \<Rightarrow> Inl e
      | Inr warnings2 \<Rightarrow>
     (case (case get_id doc of
              Inr i \<Rightarrow> Inr (i \<noteq> None)
            | Inl e \<Rightarrow> if isinstance_InvalidFieldError e then Inr False else Inl e) of
        Inl e \<Rightarrow> Inl e
      | Inr has_id \<Rightarrow>
     (case get_usernames doc of
        Inl e \<Rightarrow> Inl e
      | Inr usernames \<Rightarrow>
     (case get_invites doc of
        Inl e \<Rightarrow> Inl e
      | Inr invites \<Rightarrow>
          (let has_username = (length (values usernames) > 0);
               has_invite = (length (values invites) > 0)
           in if \<not> has_id \<and> \<not> has_username \<and> \<not> has_invite
              then Inr (warnings2 @ [no_identifier_warning])
              else Inr warnings2))))))"

section \<open>Sorting, maximum and minimum\<close>

lemma set_py_sorted_reverse: "set (py_sorted_reverse k xs) = set xs"
  by (simp add: py_sorted_reverse_def)

lemma length_py_sorted_reverse: "length (py_sorted_reverse k xs) = length xs"
  by (simp add: py_sorted_reverse_def)

lemma py_sorted_reverse_desc: "sorted_wrt (\<lambda>a b. k b \<le> k a) (py_sorted_reverse k xs)"
proof -
  have "sorted (map k (sort_key k (rev xs)))" by simp
  then have "sorted_wrt (\<lambda>a b. k a \<le> k b) (sort_key k (rev xs))"
    by (simp only: sorted_map)
  then show ?thesis
    by (simp add: py_sorted_reverse_def sorted_wrt_rev)
qed

lemma py_sorted_reverse_stable:
  "filter (\<lambda>y. k y = c) (py_sorted_reverse k xs) = filter (\<lambda>y. k y = c) xs"
proof -
  have "filter (\<lambda>y. k y = c) (sort_key k (rev xs)) = filter (\<lambda>y. k y = c) (rev xs)"
    by (rule sort_key_stable)
  then have "rev (filter (\<lambda>y. k y = c) (sort_key k (rev xs))) = filter (\<lambda>y. k y = c) xs"
    by (simp add: rev_filter)
  then show ?thesis
    by (simp add: py_sorted_reverse_def rev_filter)
qed

lemma filter_py_sorted_reverse_const:
  assumes "\<And>x. P x \<Longrightarrow> k x = c"
  shows "filter P (py_sorted_reverse k xs) = filter P xs"
proof -
  have eq: "\<And>ys. filter P ys = filter P (filter (\<lambda>y. k y = c) ys)"
    using assms by (auto intro: filter_cong)
  have "filter P (py_sorted_reverse k xs) = filter P (filter (\<lambda>y. k y = c) (py_sorted_reverse k xs))"
    by (rule eq)
  also have "\<dots> = filter P (filter (\<lambda>y. k y = c) xs)"
    by (simp only: py_sorted_reverse_stable)
  also have "\<dots> = filter P xs"
    by (rule eq [symmetric])
  finally show ?thesis .
qed

lemma filter_py_sorted_reverse_commute:
  "filter P (py_sorted_reverse k xs) = py_sorted_reverse k (filter P xs)"
proof -
  have "filter P (rev (sort_key k (rev xs))) = rev (filter P (sort_key k (rev xs)))"
    by (simp only: rev_filter)
  also have "\<dots> = rev (sort_key k (filter P (rev xs)))"
    by (simp only: filter_sort)
  also have "\<dots> = rev (sort_key k (rev (filter P xs)))"
    by (simp only: rev_filter)
  finally show ?thesis
    by (simp only: py_sorted_reverse_def)
qed

lemma py_sorted_reverse_id:
  assumes "sorted_wrt (\<lambda>a b. k b \<le> k a) xs"
  shows "py_sorted_reverse k xs = xs"
proof -
  from assms have "sorted_wrt (\<lambda>a b. k a \<le> k b) (rev xs)"
    by (simp add: sorted_wrt_rev)
  then have "sorted (map k (rev xs))"
    by (simp only: sorted_map)
  then have "sort_key k (rev xs) = rev xs"
    by (rule sort_key_id_if_sorted)
  then show ?thesis
    by (simp add: py_sorted_reverse_def)
qed

lemma py_max_loop_first:
  "\<exists>pre post. best # xs = pre @ py_max_loop k best xs # post
     \<and> (\<forall>y\<in>set pre. k y < k (py_max_loop k best xs))
     \<and> (\<forall>y\<in>set post. k y \<le> k (py_max_loop k best xs))"
proof (induction xs arbitrary: best)
  case Nil
  have "[best] = [] @ py_max_loop k best [] # []
      \<and> (\<forall>y\<in>set []. k y < k (py_max_loop k best []))
      \<and> (\<forall>y\<in>set []. k y \<le> k (py_max_loop k best []))"
    by simp
  then show ?case by blast
next
  case (Cons v vs)
  show ?case
  proof (cases "k best < k v")
    case True
    define r where "r = py_max_loop k v vs"
    have res: "py_max_loop k best (v # vs) = r"
      using True by (simp add: r_def)
    from Cons.IH [of v] obtain pre post where
      split: "v # vs = pre @ r # post" and
      lo: "\<forall>y\<in>set pre. k y < k r" and hi: "\<forall>y\<in>set post. k y \<le> k r"
      unfolding r_def by blast
    have "v \<in> set (pre @ r # post)"
      using split by (metis list.set_intros(1))
    then have "k v \<le> k r" using lo hi by auto
    with True have "k best < k r" by simp
    with split lo hi have "best # v # vs = (best # pre) @ r # post
        \<and> (\<forall>y\<in>set (best # pre). k y < k r) \<and> (\<forall>y\<in>set post. k y \<le> k r)"
      by simp
    then show ?thesis unfolding res by blast
  next
    case False
    define r where "r = py_max_loop k best vs"
    have res: "py_max_loop k best (v # vs) = r"
      using False by (simp add: r_def)
    from Cons.IH [of best] obtain pre post where
      split: "best # vs = pre @ r # post" and
      lo: "\<forall>y\<in>set pre. k y < k r" and hi: "\<forall>y\<in>set post. k y \<le> k r"
      unfolding r_def by blast
    have kv: "k v \<le> k best" using False by simp
    show ?thesis
    proof (cases pre)
      case Nil
      with split have "r = best" and "post = vs" by simp_all
      with hi kv have "best # v # vs = [] @ r # (v # vs)
          \<and> (\<forall>y\<in>set []. k y < k r) \<and> (\<forall>y\<in>set (v # vs). k y \<le> k r)"
        by simp
      then show ?thesis unfolding res by blast
    next
      case (Cons p pre')
      with split have p: "p = best" and vs: "vs = pre' @ r # post" by simp_all
      from lo Cons p have "k best < k r" by simp
      with kv have "k v < k r" by simp
      with lo hi Cons p vs have "best # v # vs = (best # v # pre') @ r # post
          \<and> (\<forall>y\<in>set (best # v # pre'). k y < k r) \<and> (\<forall>y\<in>set post. k y \<le> k r)"
        by simp
      then show ?thesis unfolding res by blast
    qed
  qed
qed

lemma py_min_loop_first:
  "\<exists>pre post. best # xs = pre @ py_min_loop k best xs # post
     \<and> (\<forall>y\<in>set pre. k (py_min_loop k best xs) < k y)
     \<and> (\<forall>y\<in>set post. k (py_min_loop k best xs) \<le> k y)"
proof (induction xs arbitrary: best)
  case Nil
  have "[best] = [] @ py_min_loop k best [] # []
      \<and> (\<forall>y\<in>set []. k (py_min_loop k best []) < k y)
      \<and> (\<forall>y\<in>set []. k (py_min_loop k best []) \<le> k y)"
    by simp
  then show ?case by blast
next
  case (Cons v vs)
  show ?case
  proof (cases "k v < k best")
    case True
    define r where "r = py_min_loop k v vs"
    have res: "py_min_loop k best (v # vs) = r"
      using True by (simp add: r_def)
    from Cons.IH [of v] obtain pre post where
      split: "v # vs = pre @ r # post" and
      lo: "\<forall>y\<in>set pre. k r < k y" and hi: "\<forall>y\<in>set post. k r \<le> k y"
      unfolding r_def by blast
    have "v \<in> set (pre @ r # post)"
      using split by (metis list.set_intros(1))
    then have "k r \<le> k v" using lo hi by auto
    with True have "k r < k best" by simp
    with split lo hi have "best # v # vs = (best # pre) @ r # post
        \<and> (\<forall>y\<in>set (best # pre). k r < k y) \<and> (\<forall>y\<in>set post. k r \<le> k y)"
      by simp
    then show ?thesis unfolding res by blast
  next
    case False
    define r where "r = py_min_loop k best vs"
    have res: "py_min_loop k best (v # vs) = r"
      using False by (simp add: r_def)
    from Cons.IH [of best] obtain pre post where
      split: "best # vs = pre @ r # post" and
      lo: "\<forall>y\<in>set pre. k r < k y" and hi: "\<forall>y\<in>set post. k r \<le> k y"
      unfolding r_def by blast
    have kv: "k best \<le> k v" using False by simp
    show ?thesis
    proof (cases pre)
      case Nil
      with split have "r = best" and "post = vs" by simp_all
      with hi kv have "best # v # vs = [] @ r # (v # vs)
          \<and> (\<forall>y\<in>set []. k r < k y) \<and> (\<forall>y\<in>set (v # vs). k r \<le> k y)"
        by simp
      then show ?thesis unfolding res by blast
    next
      case (Cons p pre')
      with split have p: "p = best" and vs: "vs = pre' @ r # post" by simp_all
      from lo Cons p have "k r < k best" by simp
      with kv have "k r < k v" by simp
      with lo hi Cons p vs have "best # v # vs = (best # v # pre') @ r # post
          \<and> (\<forall>y\<in>set (best # v # pre'). k r < k y) \<and> (\<forall>y\<in>set post. k r \<le> k y)"
        by simp
      then show ?thesis unfolding res by blast
    qed
  qed
qed

lemma find_first_split:
  assumes "xs = pre @ r # post" and "P r" and "\<forall>y\<in>set pre. \<not> P y"
  shows "find P xs = Some r"
  using assms by (induction pre arbitrary: xs) auto

lemma find_filter: "find P (filter Q xs) = find (\<lambda>x. Q x \<and> P x) xs"
  by (induction xs) auto

lemma find_eq_filter:
  "find P xs = (case filter P xs of [] \<Rightarrow> None | y # _ \<Rightarrow> Some y)"
  by (induction xs) auto


lemma sort_date_key_dated: "date v = Some d \<Longrightarrow> sort_date_key v = d"
  by (simp add: sort_date_key_def)

lemma values_init: "values (HistoricalCollection_init vs) = py_sorted_reverse sort_date_key vs"
  by (simp add: HistoricalCollection_init_def)

lemma init_undated_stable:
  "filter (\<lambda>v. date v = None) (values (HistoricalCollection_init vs)) = filter (\<lambda>v. date v = None) vs"
  unfolding values_init
  by (rule filter_py_sorted_reverse_const [where c = datetime_min]) (simp add: sort_date_key_def)

lemma init_same_date_stable:
  "filter (\<lambda>v. P v \<and> date v = Some d) (values (HistoricalCollection_init vs))
     = filter (\<lambda>v. P v \<and> date v = Some d) vs"
  unfolding values_init
  by (rule filter_py_sorted_reverse_const [where c = d]) (simp add: sort_date_key_def)

lemma init_key_desc:
  "sorted_wrt (\<lambda>a b. sort_date_key b \<le> sort_date_key a) (values (HistoricalCollection_init vs))"
  unfolding values_init by (rule py_sorted_reverse_desc)

lemma init_dated_desc:
  "sorted_wrt (\<lambda>a b. \<forall>da db. date a = Some da \<longrightarrow> date b = Some db \<longrightarrow> db \<le> da)
     (values (HistoricalCollection_init vs))"
  by (rule sorted_wrt_mono_rel [OF _ init_key_desc]) (auto simp: sort_date_key_def)

lemma init_dated_before_undated:
  assumes nomin: "\<forall>v\<in>set vs. date v \<noteq> Some datetime_min"
    and split: "values (HistoricalCollection_init vs) = pre @ u # post"
    and u: "date u = None"
  shows "\<forall>w\<in>set post. date w = None"
proof
  fix w assume w: "w \<in> set post"
  have "sorted_wrt (\<lambda>a b. sort_date_key b \<le> sort_date_key a) (pre @ u # post)"
    using init_key_desc [of vs] split by simp
  with w have le: "sort_date_key w \<le> sort_date_key u"
    by (simp add: sorted_wrt_append)
  have "w \<in> set (values (HistoricalCollection_init vs))"
    using w split by simp
  then have "w \<in> set vs"
    by (simp add: values_init set_py_sorted_reverse)
  with nomin have "date w \<noteq> Some datetime_min" by blast
  with le u show "date w = None"
    by (cases "date w") (simp_all add: sort_date_key_def datetime_min_def)
qed

lemma latest_dated:
  assumes v: "v \<in> set vs" and cand: "a \<or> \<not> is_strikethrough v" and dated: "date v \<noteq> None"
  shows "\<exists>r d. latest (HistoricalCollection_init vs) a = Some r \<and> date r = Some d
     \<and> find (\<lambda>w. (a \<or> \<not> is_strikethrough w) \<and> date w = Some d) (values (HistoricalCollection_init vs)) = Some r
     \<and> find (\<lambda>w. (a \<or> \<not> is_strikethrough w) \<and> date w = Some d) vs = Some r
     \<and> (\<forall>w\<in>set vs. (a \<or> \<not> is_strikethrough w) \<longrightarrow> date w \<le> Some d)"
proof -
  define st where "st = values (HistoricalCollection_init vs)"
  define cands where "cands = filter (\<lambda>w. a \<or> \<not> is_strikethrough w) st"
  define wd where "wd = filter (\<lambda>w. date w \<noteq> None) cands"
  have set_st: "set st = set vs"
    by (simp add: st_def values_init set_py_sorted_reverse)
  have cands_eq: "(if a then st else filter (\<lambda>v. \<not> is_strikethrough v) st) = cands"
    by (simp add: cands_def)
  have v_wd: "v \<in> set wd"
    using v cand dated by (simp add: wd_def cands_def set_st)
  then obtain x xs where wd: "wd = x # xs"
    by (cases wd) auto
  define r where "r = py_max_loop date x xs"
  have st_ne: "st \<noteq> []" using v set_st by auto
  have cands_ne: "cands \<noteq> []" using v_wd by (auto simp: wd_def)
  have "latest (HistoricalCollection_init vs) a =
      (case wd of x # xs \<Rightarrow> Some (py_max_loop date x xs)
       | [] \<Rightarrow> (case filter (\<lambda>v. date v = None) cands of [] \<Rightarrow> None | w # _ \<Rightarrow> Some w))"
    unfolding latest_def Let_def st_def [symmetric] cands_eq wd_def [symmetric]
    using st_ne cands_ne by (simp only: if_False)
  then have res: "latest (HistoricalCollection_init vs) a = Some r"
    by (simp only: wd r_def list.case)
  from py_max_loop_first [of x xs date] obtain pre post where
    split: "wd = pre @ r # post" and
    lo: "\<forall>y\<in>set pre. date y < date r" and hi: "\<forall>y\<in>set post. date y \<le> date r"
    unfolding r_def wd by blast
  have r_wd: "r \<in> set wd" using split by simp
  then obtain d where d: "date r = Some d"
    by (auto simp: wd_def)
  have max_wd: "\<forall>w\<in>set wd. date w \<le> Some d"
    using split lo hi d by (auto simp: less_imp_le)
  have max_vs: "\<forall>w\<in>set vs. (a \<or> \<not> is_strikethrough w) \<longrightarrow> date w \<le> Some d"
  proof (intro ballI impI)
    fix w assume w: "w \<in> set vs" and c: "a \<or> \<not> is_strikethrough w"
    show "date w \<le> Some d"
    proof (cases "date w")
      case None
      then show ?thesis by simp
    next
      case (Some d')
      with w c have "w \<in> set wd" by (simp add: wd_def cands_def set_st)
      with max_wd show ?thesis by blast
    qed
  qed
  have "find (\<lambda>w. date w = Some d) wd = Some r"
    by (rule find_first_split [OF split]) (use d lo in auto)
  then have f_st: "find (\<lambda>w. (a \<or> \<not> is_strikethrough w) \<and> date w = Some d) st = Some r"
    unfolding wd_def cands_def find_filter
    by (simp add: conj_ac cong: conj_cong)
  have "filter (\<lambda>w. (a \<or> \<not> is_strikethrough w) \<and> date w = Some d) st
      = filter (\<lambda>w. (a \<or> \<not> is_strikethrough w) \<and> date w = Some d) vs"
    unfolding st_def by (rule init_same_date_stable)
  with f_st have f_vs: "find (\<lambda>w. (a \<or> \<not> is_strikethrough w) \<and> date w = Some d) vs = Some r"
    by (simp add: find_eq_filter)
  from res d f_st f_vs max_vs show ?thesis
    unfolding st_def by blast
qed


lemma oldest_dated:
  assumes v: "v \<in> set vs" and dated: "date v \<noteq> None"
  shows "\<exists>r d. oldest (HistoricalCollection_init vs) = Some r \<and> date r = Some d
     \<and> find (\<lambda>w. date w = Some d) (values (HistoricalCollection_init vs)) = Some r
     \<and> find (\<lambda>w. date w = Some d) vs = Some r
     \<and> (\<forall>w\<in>set vs. \<forall>d'. date w = Some d' \<longrightarrow> d \<le> d')"
proof -
  define st where "st = values (HistoricalCollection_init vs)"
  define wd where "wd = filter (\<lambda>w. date w \<noteq> None) st"
  have set_st: "set st = set vs"
    by (simp add: st_def values_init set_py_sorted_reverse)
  have v_wd: "v \<in> set wd"
    using v dated by (simp add: wd_def set_st)
  then obtain x xs where wd: "wd = x # xs"
    by (cases wd) auto
  define r where "r = py_min_loop date x xs"
  have st_ne: "st \<noteq> []" using v set_st by auto
  have "oldest (HistoricalCollection_init vs) =
      (case wd of x # xs \<Rightarrow> Some (py_min_loop date x xs)
       | [] \<Rightarrow> (if filter (\<lambda>v. date v = None) st = [] then None
                else Some (last (filter (\<lambda>v. date v = None) st))))"
    unfolding oldest_def Let_def st_def [symmetric] wd_def [symmetric]
    using st_ne by (simp only: if_False)
  then have res: "oldest (HistoricalCollection_init vs) = Some r"
    by (simp only: wd r_def list.case)
  from py_min_loop_first [of x xs date] obtain pre post where
    split: "wd = pre @ r # post" and
    lo: "\<forall>y\<in>set pre. date r < date y" and hi: "\<forall>y\<in>set post. date r \<le> date y"
    unfolding r_def wd by blast
  have r_wd: "r \<in> set wd" using split by simp
  then obtain d where d: "date r = Some d"
    by (auto simp: wd_def)
  have min_wd: "\<forall>w\<in>set wd. Some d \<le> date w"
    using split lo hi d by (auto simp: less_imp_le)
  have min_vs: "\<forall>w\<in>set vs. \<forall>d'. date w = Some d' \<longrightarrow> d \<le> d'"
  proof (intro ballI allI impI)
    fix w d' assume w: "w \<in> set vs" and d': "date w = Some d'"
    then have "w \<in> set wd" by (simp add: wd_def set_st)
    with min_wd d' show "d \<le> d'" by fastforce
  qed
  have "find (\<lambda>w. date w = Some d) wd = Some r"
    by (rule find_first_split [OF split]) (use d lo in auto)
  then have f_st: "find (\<lambda>w. date w = Some d) st = Some r"
    unfolding wd_def find_filter
    by (simp add: conj_ac cong: conj_cong)
  have "filter (\<lambda>w. True \<and> date w = Some d) st = filter (\<lambda>w. True \<and> date w = Some d) vs"
    unfolding st_def by (rule init_same_date_stable)
  with f_st have f_vs: "find (\<lambda>w. date w = Some d) vs = Some r"
    by (simp add: find_eq_filter)
  from res d f_st f_vs min_vs show ?thesis
    unfolding st_def by blast
qed

lemma init_all_undated:
  assumes "\<forall>v\<in>set vs. date v = None"
  shows "values (HistoricalCollection_init vs) = vs"
proof -
  have "filter (\<lambda>v. date v = None) (values (HistoricalCollection_init vs)) = filter (\<lambda>v. date v = None) vs"
    by (rule init_undated_stable)
  moreover have "\<forall>v\<in>set (values (HistoricalCollection_init vs)). date v = None"
    using assms by (simp add: values_init set_py_sorted_reverse)
  ultimately show ?thesis
    using assms by (simp cong: filter_cong)
qed

lemma oldest_undated:
  assumes ne: "vs \<noteq> []" and und: "\<forall>v\<in>set vs. date v = None"
  shows "oldest (HistoricalCollection_init vs) = Some (last vs)"
proof -
  have st: "values (HistoricalCollection_init vs) = vs"
    using und by (rule init_all_undated)
  have wd: "filter (\<lambda>v. date v \<noteq> None) vs = []"
    using und by simp
  have wo: "filter (\<lambda>v. date v = None) vs = vs"
    using und by simp
  show ?thesis
    unfolding oldest_def Let_def st wd wo using ne by simp
qed

lemma active_init:
  "active (HistoricalCollection_init vs)
     = filter (\<lambda>v. \<not> is_strikethrough v) (values (HistoricalCollection_init vs))"
proof -
  let ?P = "\<lambda>v. \<not> is_strikethrough v"
  have "sorted_wrt (\<lambda>a b. sort_date_key b \<le> sort_date_key a) (filter ?P (values (HistoricalCollection_init vs)))"
    using init_key_desc by (rule sorted_wrt_filter)
  then show ?thesis
    by (simp add: active_def py_sorted_reverse_id)
qed

section \<open>Claims about HistoricalCollection\<close>

lemma get_hashes_allow: "get_hashes c True = map hash (values c)"
  by (simp add: get_hashes_def)

lemma get_hashes_default:
  "get_hashes (HistoricalCollection_init vs) False
     = map hash (filter (\<lambda>v. \<not> is_strikethrough v) (values (HistoricalCollection_init vs)))"
  by (simp add: get_hashes_def active_init)

lemma active_key_desc: "sorted_wrt (\<lambda>a b. sort_date_key b \<le> sort_date_key a) (active c)"
  by (simp add: active_def py_sorted_reverse_desc)

text \<open>
  Claim C1. Constructing a collection should put every dated entry before every
  undated one, dated entries in non-increasing date order and undated entries in their
  original order. The last two parts hold for every input (\<open>init_dated_desc\<close>,
  \<open>init_undated_stable\<close>), and the first holds when no date equals \<^verbatim>\<open>datetime.min\<close>
  (\<open>init_dated_before_undated\<close>). An entry dated exactly \<^verbatim>\<open>datetime.min\<close> gets the
  same sort key as an undated entry, so the stable sort leaves the two in input order:
  here the undated entry stays in front of the dated one.
\<close>

theorem HistoricalCollection_init_sentinel_collision:
  "values (HistoricalCollection_init
      [HistoricalValue_new ''undated'' None None False,
       HistoricalValue_new ''dated'' (Some datetime_min) None False])
   = [HistoricalValue_new ''undated'' None None False,
      HistoricalValue_new ''dated'' (Some datetime_min) None False]"
  by (simp add: HistoricalCollection_init_def py_sorted_reverse_def sort_date_key_def
      HistoricalValue_new_def datetime_min_def)

text \<open>
  Claim C2. When every value of a collection is marked strikethrough, \<open>latest\<close> with
  \<open>allow_strikethrough = False\<close> returns nothing; with \<open>allow_strikethrough = True\<close>,
  and at least one dated value, it returns a value of the collection whose date is
  the maximum of all dates.
\<close>

theorem latest_all_strikethrough:
  assumes "\<forall>v\<in>set vs. is_strikethrough v"
  shows "latest (HistoricalCollection_init vs) False = None
       \<and> ((\<exists>v\<in>set vs. date v \<noteq> None) \<longrightarrow>
            (\<exists>r d. latest (HistoricalCollection_init vs) True = Some r \<and> r \<in> set vs \<and> date r = Some d
               \<and> (\<forall>w\<in>set vs. \<forall>d'. date w = Some d' \<longrightarrow> d' \<le> d)))"
proof
  have "filter (\<lambda>v. \<not> is_strikethrough v) (values (HistoricalCollection_init vs)) = []"
    using assms by (simp add: values_init set_py_sorted_reverse)
  then show "latest (HistoricalCollection_init vs) False = None"
    by (simp add: latest_def)
next
  show "(\<exists>v\<in>set vs. date v \<noteq> None) \<longrightarrow>
            (\<exists>r d. latest (HistoricalCollection_init vs) True = Some r \<and> r \<in> set vs \<and> date r = Some d
               \<and> (\<forall>w\<in>set vs. \<forall>d'. date w = Some d' \<longrightarrow> d' \<le> d))"
  proof
    assume "\<exists>v\<in>set vs. date v \<noteq> None"
    then obtain v where "v \<in> set vs" "date v \<noteq> None" by blast
    from latest_dated [OF this(1) _ this(2), of True] obtain r d where
      r: "latest (HistoricalCollection_init vs) True = Some r" "date r = Some d"
         "find (\<lambda>w. (True \<or> \<not> is_strikethrough w) \<and> date w = Some d) vs = Some r"
         "\<forall>w\<in>set vs. (True \<or> \<not> is_strikethrough w) \<longrightarrow> date w \<le> Some d"
      by blast
    from r(3) have "r \<in> set vs"
      by (auto simp: find_Some_iff)
    moreover from r(4) have "\<forall>w\<in>set vs. \<forall>d'. date w = Some d' \<longrightarrow> d' \<le> d"
      by fastforce
    ultimately show "\<exists>r d. latest (HistoricalCollection_init vs) True = Some r \<and> r \<in> set vs \<and> date r = Some d
               \<and> (\<forall>w\<in>set vs. \<forall>d'. date w = Some d' \<longrightarrow> d' \<le> d)"
      using r(1,2) by blast
  qed
qed

theorem latest_all_strikethrough_witness:
  "latest (HistoricalCollection_init
      [HistoricalValue_new ''a'' (Some 5) None True,
       HistoricalValue_new ''b'' (Some 9) None True,
       HistoricalValue_new ''c'' None None True]) False = None
   \<and> latest (HistoricalCollection_init
      [HistoricalValue_new ''a'' (Some 5) None True,
       HistoricalValue_new ''b'' (Some 9) None True,
       HistoricalValue_new ''c'' None None True]) True
     = Some (HistoricalValue_new ''b'' (Some 9) None True)"
proof -
  let ?W = "[HistoricalValue_new ''a'' (Some 5) None True,
       HistoricalValue_new ''b'' (Some 9) None True,
       HistoricalValue_new ''c'' None None True]"
  have h: "\<forall>v\<in>set ?W. is_strikethrough v"
    by (simp add: HistoricalValue_new_def)
  have e: "\<exists>v\<in>set ?W. date v \<noteq> None"
    by (simp add: HistoricalValue_new_def)
  from latest_all_strikethrough [OF h] e obtain r d where
    r: "latest (HistoricalCollection_init ?W) True = Some r" "r \<in> set ?W" "date r = Some d"
       "\<forall>w\<in>set ?W. \<forall>d'. date w = Some d' \<longrightarrow> d' \<le> d"
    by blast
  from r(2,3,4) have "r = HistoricalValue_new ''b'' (Some 9) None True"
    by (auto simp: HistoricalValue_new_def)
  with r(1) latest_all_strikethrough [OF h] show ?thesis by simp
qed

text \<open>
  Claim C6. For a non-empty collection, \<open>oldest\<close> looks at all values, strikethrough or
  not: when some value is dated it returns a value whose date is the minimum of all
  dates (the first such value in stored order); otherwise it returns the last value in
  stored order, which is then the original order.
\<close>

theorem oldest_considers_all:
  assumes "vs \<noteq> []"
  shows "if \<exists>v\<in>set vs. date v \<noteq> None
         then \<exists>r d. oldest (HistoricalCollection_init vs) = Some r \<and> r \<in> set vs \<and> date r = Some d
                \<and> (\<forall>w\<in>set vs. \<forall>d'. date w = Some d' \<longrightarrow> d \<le> d')
                \<and> find (\<lambda>w. date w = Some d) (values (HistoricalCollection_init vs)) = Some r
         else oldest (HistoricalCollection_init vs) = Some (last (values (HistoricalCollection_init vs)))
                \<and> values (HistoricalCollection_init vs) = vs"
proof (cases "\<exists>v\<in>set vs. date v \<noteq> None")
  case True
  then obtain v where "v \<in> set vs" "date v \<noteq> None" by blast
  from oldest_dated [OF this] obtain r d where
    r: "oldest (HistoricalCollection_init vs) = Some r" "date r = Some d"
       "find (\<lambda>w. date w = Some d) (values (HistoricalCollection_init vs)) = Some r"
       "find (\<lambda>w. date w = Some d) vs = Some r"
       "\<forall>w\<in>set vs. \<forall>d'. date w = Some d' \<longrightarrow> d \<le> d'"
    by blast
  from r(4) have "r \<in> set vs"
    by (auto simp: find_Some_iff)
  with r True show ?thesis by auto
next
  case False
  then have und: "\<forall>v\<in>set vs. date v = None" by simp
  from oldest_undated [OF assms und] init_all_undated [OF und] False
  show ?thesis by simp
qed

theorem oldest_considers_all_witness:
  "oldest (HistoricalCollection_init
      [HistoricalValue_new ''new'' (Some 5) None False,
       HistoricalValue_new ''struck'' (Some 2) None True,
       HistoricalValue_new ''undated'' None None False])
     = Some (HistoricalValue_new ''struck'' (Some 2) None True)
   \<and> oldest (HistoricalCollection_init
      [HistoricalValue_new ''x'' None None False,
       HistoricalValue_new ''y'' None None True])
     = Some (HistoricalValue_new ''y'' None None True)"
proof -
  let ?W = "[HistoricalValue_new ''new'' (Some 5) None False,
       HistoricalValue_new ''struck'' (Some 2) None True,
       HistoricalValue_new ''undated'' None None False]"
  let ?U = "[HistoricalValue_new ''x'' None None False,
       HistoricalValue_new ''y'' None None True]"
  have e: "\<exists>v\<in>set ?W. date v \<noteq> None"
    by (simp add: HistoricalValue_new_def)
  have "?W \<noteq> []" by simp
  from oldest_considers_all [OF this] e obtain r d where
    r: "oldest (HistoricalCollection_init ?W) = Some r" "r \<in> set ?W" "date r = Some d"
       "\<forall>w\<in>set ?W. \<forall>d'. date w = Some d' \<longrightarrow> d \<le> d'"
    by (simp only: if_True) blast
  from r(2,3,4) have "r = HistoricalValue_new ''struck'' (Some 2) None True"
    by (auto simp: HistoricalValue_new_def)
  with r(1) have first: "oldest (HistoricalCollection_init ?W)
      = Some (HistoricalValue_new ''struck'' (Some 2) None True)"
    by simp
  have u: "\<not> (\<exists>v\<in>set ?U. date v \<noteq> None)"
    by (simp add: HistoricalValue_new_def)
  have "?U \<noteq> []" by simp
  from oldest_considers_all [OF this] u
  have "oldest (HistoricalCollection_init ?U) = Some (last (values (HistoricalCollection_init ?U)))
      \<and> values (HistoricalCollection_init ?U) = ?U"
    by (simp only: if_False)
  then have "oldest (HistoricalCollection_init ?U) = Some (last ?U)"
    by simp
  with first show ?thesis by simp
qed

text \<open>
  Claim C9. Let \<open>d\<close> be the greatest date among the candidates of \<open>latest\<close> (all
  values, or the values not marked strikethrough). Then \<open>latest\<close> returns the first
  candidate dated \<open>d\<close> in stored order, and this is the first candidate dated \<open>d\<close> in
  the original order of the list the collection was built from.
\<close>

theorem latest_tie_break:
  assumes v: "v \<in> set vs" and cand: "a \<or> \<not> is_strikethrough v" and dv: "date v = Some d"
    and mx: "\<forall>w\<in>set vs. (a \<or> \<not> is_strikethrough w) \<longrightarrow> (\<forall>d'. date w = Some d' \<longrightarrow> d' \<le> d)"
  shows "latest (HistoricalCollection_init vs) a
           = find (\<lambda>w. (a \<or> \<not> is_strikethrough w) \<and> date w = Some d) (values (HistoricalCollection_init vs))
       \<and> latest (HistoricalCollection_init vs) a
           = find (\<lambda>w. (a \<or> \<not> is_strikethrough w) \<and> date w = Some d) vs
       \<and> latest (HistoricalCollection_init vs) a \<noteq> None"
proof -
  have "date v \<noteq> None" using dv by simp
  from latest_dated [OF v cand this] obtain r d0 where
    r: "latest (HistoricalCollection_init vs) a = Some r" "date r = Some d0"
       "find (\<lambda>w. (a \<or> \<not> is_strikethrough w) \<and> date w = Some d0) (values (HistoricalCollection_init vs)) = Some r"
       "find (\<lambda>w. (a \<or> \<not> is_strikethrough w) \<and> date w = Some d0) vs = Some r"
       "\<forall>w\<in>set vs. (a \<or> \<not> is_strikethrough w) \<longrightarrow> date w \<le> Some d0"
    by blast
  from r(5) v cand dv have "d \<le> d0" by fastforce
  moreover from r(4) have "r \<in> set vs" "a \<or> \<not> is_strikethrough r"
    by (auto simp: find_Some_iff)
  with mx r(2) have "d0 \<le> d" by blast
  ultimately have "d0 = d" by simp
  with r show ?thesis by simp
qed

theorem latest_tie_break_witness:
  "latest (HistoricalCollection_init
      [HistoricalValue_new ''struck'' (Some 7) None True,
       HistoricalValue_new ''first'' (Some 7) None False,
       HistoricalValue_new ''old'' (Some 3) None False,
       HistoricalValue_new ''second'' (Some 7) None False]) False
     = Some (HistoricalValue_new ''first'' (Some 7) None False)"
proof -
  let ?v = "HistoricalValue_new ''first'' (Some 7) None False"
  let ?W = "[HistoricalValue_new ''struck'' (Some 7) None True,
       HistoricalValue_new ''first'' (Some 7) None False,
       HistoricalValue_new ''old'' (Some 3) None False,
       HistoricalValue_new ''second'' (Some 7) None False]"
  have v: "?v \<in> set ?W" by simp
  have c: "False \<or> \<not> is_strikethrough ?v"
    by (simp add: HistoricalValue_new_def)
  have d: "date ?v = Some 7"
    by (simp add: HistoricalValue_new_def)
  have m: "\<forall>w\<in>set ?W. (False \<or> \<not> is_strikethrough w) \<longrightarrow> (\<forall>d'. date w = Some d' \<longrightarrow> d' \<le> 7)"
    by (simp add: HistoricalValue_new_def)
  from latest_tie_break [OF v c d m]
  have "latest (HistoricalCollection_init ?W) False
      = find (\<lambda>w. (False \<or> \<not> is_strikethrough w) \<and> date w = Some 7) ?W"
    by blast
  also have "\<dots> = Some ?v"
    by (simp add: HistoricalValue_new_def)
  finally show ?thesis .
qed

text \<open>
  Claim C10. \<open>get_hashes\<close> with \<open>allow_strikethrough = True\<close> returns the hashes of all
  stored values in stored order (\<open>get_hashes_allow\<close>); with \<open>False\<close> it returns the
  hashes of the values not marked strikethrough, in the order of \<open>active\<close>, which is
  their stored order (\<open>get_hashes_default\<close>) and is non-increasing in the sort key
  (\<open>active_key_desc\<close>). That order puts undated values last only when no date equals
  \<^verbatim>\<open>datetime.min\<close>: here the hash of an undated invite comes before the hash of an
  invite dated \<^verbatim>\<open>datetime.min\<close>.
\<close>

theorem get_hashes_sentinel_collision:
  "get_hashes (HistoricalCollection_init
      [\<lparr>value = ''https://t.me/+undated'', date = None, details = None,
         is_strikethrough = False, hash = ''undated''\<rparr>,
       \<lparr>value = ''https://t.me/+dated'', date = Some datetime_min, details = None,
         is_strikethrough = False, hash = ''dated''\<rparr>]) False
   = [''undated'', ''dated'']"
  by (simp add: get_hashes_def active_def HistoricalCollection_init_def py_sorted_reverse_def
      sort_date_key_def datetime_min_def)

section \<open>Claims about the validated value types\<close>

lemma py_startswith_append: "py_startswith (p @ s) p"
  by (simp add: py_startswith_def)

lemma py_startswith_Cons: "py_startswith s (c # p) \<Longrightarrow> s \<noteq> [] \<and> hd s = c"
  by (cases s) (auto simp: py_startswith_def)

lemma py_startswith_set: "py_startswith s p \<Longrightarrow> set p \<subseteq> set s"
  unfolding py_startswith_def by (metis set_take_subset)

lemma username_alphabet_all:
  "list_all is_username_char
     (''ABCDEFGHIJKLMNOPQRSTUVWXYZ'' @ ''abcdefghijklmnopqrstuvwxyz'' @ ''0123456789_'')"
  by (simp add: is_username_char_def)

lemma username_alphabet:
  "c \<in> set (''ABCDEFGHIJKLMNOPQRSTUVWXYZ'' @ ''abcdefghijklmnopqrstuvwxyz'' @ ''0123456789_'')
     \<Longrightarrow> is_username_char c"
  using username_alphabet_all unfolding list_all_iff by blast

lemma username_re_match_hd:
  assumes "username_re_match s"
  shows "s \<noteq> [] \<and> is_username_char (hd s)"
proof -
  from assms have "takeWhile is_username_char s \<noteq> []"
    by (auto simp: username_re_match_def Let_def)
  then show ?thesis
    by (cases s) (auto split: if_splits)
qed

lemma py_replace_scan_absent:
  "x \<in> set old \<Longrightarrow> x \<notin> set s \<Longrightarrow> py_replace_scan old new s = s"
proof (induction s)
  case Nil
  show ?case by simp
next
  case (Cons c cs)
  have "\<not> py_startswith (c # cs) old"
    using Cons.prems py_startswith_set [of "c # cs" old] by blast
  with Cons show ?case by simp
qed

lemma py_replace_scan_prefix:
  assumes "old \<noteq> []"
  shows "py_replace_scan old new (old @ s) = new @ py_replace_scan old new s"
proof -
  from assms obtain a as where old: "old = a # as" by (cases old) auto
  have "py_replace_scan old new (a # (as @ s))
      = new @ py_replace_scan old new (drop (length old) (a # (as @ s)))"
    using assms by (simp add: old py_startswith_def)
  then show ?thesis by (simp add: old)
qed

lemma py_replace_prefix_once:
  assumes "old \<noteq> []" and "x \<in> set old" and "x \<notin> set s"
  shows "py_replace (old @ s) old [] = s"
  using assms by (simp add: py_replace_def py_replace_scan_prefix py_replace_scan_absent)

lemma takeWhile_nonempty_hd:
  "takeWhile P s \<noteq> [] \<Longrightarrow> s \<noteq> [] \<and> P (hd s)"
  by (cases s) (simp_all split: if_splits)

lemma set_takeWhile_dropWhile:
  "set s = set (takeWhile P s) \<union> set (dropWhile P s)"
  by (metis set_append takeWhile_dropWhile_id)

lemma invite_hash_chars:
  assumes "invite_hash_re_match h"
  shows "h \<noteq> [] \<and> is_hash_char (hd h) \<and> (\<forall>c\<in>set h. is_hash_char c \<or> c = CHR 0x0A)"
proof -
  from assms have len: "1 \<le> length (takeWhile is_hash_char h)"
    and rest: "re_dollar (dropWhile is_hash_char h)"
    unfolding invite_hash_re_match_def by blast+
  from len have "takeWhile is_hash_char h \<noteq> []"
    by (cases "takeWhile is_hash_char h") simp_all
  then have ne: "h \<noteq> [] \<and> is_hash_char (hd h)"
    by (rule takeWhile_nonempty_hd)
  have a: "\<forall>c\<in>set (takeWhile is_hash_char h). is_hash_char c"
    by (blast dest: set_takeWhileD)
  have b: "\<forall>c\<in>set (dropWhile is_hash_char h). c = CHR 0x0A"
  proof (cases "dropWhile is_hash_char h = []")
    case True
    then show ?thesis by (simp only: list.set ball_empty)
  next
    case False
    with rest have "dropWhile is_hash_char h = [CHR 0x0A]"
      unfolding re_dollar_def by blast
    then show ?thesis by (simp only: list.set ball_simps singleton_iff simp_thms)
  qed
  have "\<forall>c\<in>set h. is_hash_char c \<or> c = CHR 0x0A"
    using a b set_takeWhile_dropWhile [of h is_hash_char] by blast
  with ne show ?thesis by blast
qed

lemma invite_hash_shape:
  assumes "invite_hash_re_match h"
  shows "CHR '':'' \<notin> set h \<and> \<not> py_startswith h ''+''
       \<and> \<not> py_startswith h ''https://t.me/+'' \<and> \<not> py_startswith h ''http://t.me/+''"
proof -
  from invite_hash_chars [OF assms] have ne: "h \<noteq> []" and hd: "is_hash_char (hd h)"
    and all: "\<forall>c\<in>set h. is_hash_char c \<or> c = CHR 0x0A"
    by blast+
  have nc: "\<not> is_hash_char CHR '':''"
    by (simp add: is_hash_char_def)
  have np: "\<not> is_hash_char CHR ''+''"
    by (simp add: is_hash_char_def)
  have nl: "CHR '':'' \<noteq> CHR 0x0A" by simp
  from all nc nl have colon: "CHR '':'' \<notin> set h" by blast
  have plus: "\<not> py_startswith h ''+''"
    using hd np py_startswith_Cons [of h "CHR ''+''" "[]"] by metis
  have c1: "CHR '':'' \<in> set ''https://t.me/+''" by simp
  have c2: "CHR '':'' \<in> set ''http://t.me/+''" by simp
  have s1: "\<not> py_startswith h ''https://t.me/+''"
    using colon c1 py_startswith_set [of h "''https://t.me/+''"] by blast
  have s2: "\<not> py_startswith h ''http://t.me/+''"
    using colon c2 py_startswith_set [of h "''http://t.me/+''"] by blast
  from colon plus s1 s2 show ?thesis by blast
qed

lemma invite_hash_abc: "invite_hash_re_match ''abc''"
  by (simp add: invite_hash_re_match_def is_hash_char_def re_dollar_def)

text \<open>
  Claim C5. For every name of 5 to 32 characters among A-Z, a-z, 0-9 and underscore,
  constructing a \<open>UsernameValue\<close> from the name with the marker \<open>@\<close> in front succeeds,
  stores the name without the marker, and \<open>with_at\<close> gives the marker and the name
  back. Whatever text a \<open>UsernameValue\<close> is constructed from, its stored value never
  starts with the marker.
\<close>

theorem UsernameValue_roundtrip:
  assumes len: "5 \<le> length name" "length name \<le> 32"
    and chars: "set name \<subseteq> set (''ABCDEFGHIJKLMNOPQRSTUVWXYZ'' @ ''abcdefghijklmnopqrstuvwxyz'' @ ''0123456789_'')"
  shows "(\<exists>u. UsernameValue_new (''@'' @ name) d det st = Inr u
            \<and> with_at u = ''@'' @ name \<and> value u = name
            \<and> date u = d \<and> details u = det \<and> is_strikethrough u = st)
       \<and> (\<forall>raw u. UsernameValue_new raw d det st = Inr u \<longrightarrow> \<not> py_startswith (value u) ''@'')"
proof
  have all: "\<forall>c\<in>set name. is_username_char c"
    using chars username_alphabet by blast
  then have tw: "takeWhile is_username_char name = name"
    and dw: "dropWhile is_username_char name = []"
    by simp_all
  have m: "username_re_match name"
    unfolding username_re_match_def Let_def tw dw re_dollar_def using len by simp
  have "UsernameValue_new (''@'' @ name) d det st
      = Inr \<lparr>value = name, date = d, details = det, is_strikethrough = st\<rparr>"
    using m by (simp add: UsernameValue_new_def UsernameValue_post_init_def py_startswith_def)
  then show "\<exists>u. UsernameValue_new (''@'' @ name) d det st = Inr u
            \<and> with_at u = ''@'' @ name \<and> value u = name
            \<and> date u = d \<and> details u = det \<and> is_strikethrough u = st"
    by (simp add: with_at_def)
next
  show "\<forall>raw u. UsernameValue_new raw d det st = Inr u \<longrightarrow> \<not> py_startswith (value u) ''@''"
  proof (intro allI impI)
    fix raw u assume "UsernameValue_new raw d det st = Inr u"
    then have "username_re_match (value u)"
      by (auto simp: UsernameValue_new_def UsernameValue_post_init_def Let_def split: if_splits)
    then have "value u \<noteq> [] \<and> is_username_char (hd (value u))"
      by (rule username_re_match_hd)
    moreover have "\<not> is_username_char CHR ''@''"
      by (simp add: is_username_char_def)
    ultimately show "\<not> py_startswith (value u) ''@''"
      using py_startswith_Cons [of "value u" "CHR ''@''" "[]"] by auto
  qed
qed

theorem UsernameValue_roundtrip_witness:
  "UsernameValue_new ''@valid123'' None None False
     = Inr \<lparr>value = ''valid123'', date = None, details = None, is_strikethrough = False\<rparr>
   \<and> with_at \<lparr>value = ''valid123'', date = None, details = None, is_strikethrough = False\<rparr>
     = ''@valid123''"
proof -
  have l: "5 \<le> length ''valid123''" "length ''valid123'' \<le> 32" by simp_all
  have c: "set ''valid123'' \<subseteq> set (''ABCDEFGHIJKLMNOPQRSTUVWXYZ'' @ ''abcdefghijklmnopqrstuvwxyz'' @ ''0123456789_'')"
    by simp
  from UsernameValue_roundtrip [OF l c, of None None False]
  obtain u where u: "UsernameValue_new (''@'' @ ''valid123'') None None False = Inr u"
      "with_at u = ''@'' @ ''valid123''" "value u = ''valid123''"
      "date u = None" "details u = None" "is_strikethrough u = False"
    by blast
  from u(3-6) have "u = \<lparr>value = ''valid123'', date = None, details = None, is_strikethrough = False\<rparr>"
    by simp
  with u(1,2) show ?thesis by simp
qed

text \<open>
  Claim C3, as amended. For every hash the validation accepts, constructing an
  \<open>InviteValue\<close> from the \<^verbatim>\<open>https\<close> URL of the hash, from the hash with a leading \<open>+\<close>
  and from the hash alone gives one and the same value, whose URL is
  \<^verbatim>\<open>https://t.me/+\<close> followed by the hash. Constructing it from the \<^verbatim>\<open>http\<close> URL gives
  the same hash, but the URL is kept as it was given.
\<close>

theorem InviteValue_confluent:
  assumes "invite_hash_re_match h"
  shows "InviteValue_new (''https://t.me/+'' @ h) d det st
           = Inr \<lparr>value = ''https://t.me/+'' @ h, date = d, details = det,
                   is_strikethrough = st, hash = h\<rparr>
       \<and> InviteValue_new (''+'' @ h) d det st
           = Inr \<lparr>value = ''https://t.me/+'' @ h, date = d, details = det,
                   is_strikethrough = st, hash = h\<rparr>
       \<and> InviteValue_new h d det st
           = Inr \<lparr>value = ''https://t.me/+'' @ h, date = d, details = det,
                   is_strikethrough = st, hash = h\<rparr>
       \<and> InviteValue_new (''http://t.me/+'' @ h) d det st
           = Inr \<lparr>value = ''http://t.me/+'' @ h, date = d, details = det,
                   is_strikethrough = st, hash = h\<rparr>"
proof -
  from invite_hash_shape [OF assms] have colon: "CHR '':'' \<notin> set h"
    and plus: "\<not> py_startswith h ''+''"
    and s1: "\<not> py_startswith h ''https://t.me/+''"
    and s2: "\<not> py_startswith h ''http://t.me/+''"
    by blast+
  have r1: "py_replace (''https://t.me/+'' @ h) ''https://t.me/+'' [] = h"
    by (rule py_replace_prefix_once [where x = "CHR '':''"]) (simp_all add: colon)
  have r2: "py_replace (''http://t.me/+'' @ h) ''http://t.me/+'' [] = h"
    by (rule py_replace_prefix_once [where x = "CHR '':''"]) (simp_all add: colon)
  have p1: "py_startswith (''https://t.me/+'' @ h) ''https://t.me/+''"
    by (rule py_startswith_append)
  have p2: "py_startswith (''http://t.me/+'' @ h) ''http://t.me/+''"
    by (rule py_startswith_append)
  have p3: "py_startswith (''+'' @ h) ''+''"
    by (rule py_startswith_append)
  have n2: "\<not> py_startswith (''http://t.me/+'' @ h) ''https://t.me/+''"
    by (simp add: py_startswith_def)
  have n3: "\<not> py_startswith (''+'' @ h) ''https://t.me/+''"
    "\<not> py_startswith (''+'' @ h) ''http://t.me/+''"
    by (simp_all add: py_startswith_def)
  have full: "InviteValue_new (''https://t.me/+'' @ h) d det st
           = Inr \<lparr>value = ''https://t.me/+'' @ h, date = d, details = det,
                   is_strikethrough = st, hash = h\<rparr>"
    unfolding InviteValue_new_def InviteValue_post_init_def
    using p1 r1 assms by (simp del: append.simps)
  have bare: "InviteValue_new (''+'' @ h) d det st
           = Inr \<lparr>value = ''https://t.me/+'' @ h, date = d, details = det,
                   is_strikethrough = st, hash = h\<rparr>"
    unfolding InviteValue_new_def InviteValue_post_init_def
    using p3 n3 assms by simp
  have raw: "InviteValue_new h d det st
           = Inr \<lparr>value = ''https://t.me/+'' @ h, date = d, details = det,
                   is_strikethrough = st, hash = h\<rparr>"
    unfolding InviteValue_new_def InviteValue_post_init_def
    using plus s1 s2 assms by simp
  have http: "InviteValue_new (''http://t.me/+'' @ h) d det st
           = Inr \<lparr>value = ''http://t.me/+'' @ h, date = d, details = det,
                   is_strikethrough = st, hash = h\<rparr>"
    unfolding InviteValue_new_def InviteValue_post_init_def
    using p2 n2 r2 assms by (simp del: append.simps)
  from full bare raw http show ?thesis by blast
qed

theorem InviteValue_confluent_witness:
  "InviteValue_new ''https://t.me/+abc'' None None False
     = Inr \<lparr>value = ''https://t.me/+abc'', date = None, details = None,
             is_strikethrough = False, hash = ''abc''\<rparr>
   \<and> InviteValue_new ''+abc'' None None False
     = Inr \<lparr>value = ''https://t.me/+abc'', date = None, details = None,
             is_strikethrough = False, hash = ''abc''\<rparr>
   \<and> InviteValue_new ''abc'' None None False
     = Inr \<lparr>value = ''https://t.me/+abc'', date = None, details = None,
             is_strikethrough = False, hash = ''abc''\<rparr>
   \<and> InviteValue_new ''http://t.me/+abc'' None None False
     = Inr \<lparr>value = ''http://t.me/+abc'', date = None, details = None,
             is_strikethrough = False, hash = ''abc''\<rparr>"
  using InviteValue_confluent [OF invite_hash_abc, of None None False] by simp

text \<open>
  The claim as first stated fails for a full URL with the \<^verbatim>\<open>http\<close> scheme: the hash
  \<open>abc\<close> is accepted, yet the URL built from \<^verbatim>\<open>http://t.me/+abc\<close> differs from the one
  built from \<^verbatim>\<open>+abc\<close>.
\<close>

theorem InviteValue_http_url_counterexample:
  "invite_hash_re_match ''abc''
   \<and> InviteValue_new ''http://t.me/+abc'' None None False
     = Inr \<lparr>value = ''http://t.me/+abc'', date = None, details = None,
             is_strikethrough = False, hash = ''abc''\<rparr>
   \<and> InviteValue_new ''+abc'' None None False
     = Inr \<lparr>value = ''https://t.me/+abc'', date = None, details = None,
             is_strikethrough = False, hash = ''abc''\<rparr>
   \<and> map_sum id url (InviteValue_new ''http://t.me/+abc'' None None False)
     \<noteq> map_sum id url (InviteValue_new ''+abc'' None None False)"
  by (simp add: InviteValue_new_def InviteValue_post_init_def py_startswith_def py_replace_def
      invite_hash_re_match_def is_hash_char_def re_dollar_def url_def)

section \<open>Claims about the entity projection\<close>












lemma py_contains_uu_Nil: "\<not> py_contains ''__'' []"
  by simp
















lemma UsernameValue_new_marker:
  assumes "py_startswith raw ''@''"
  shows "UsernameValue_new raw d det st =
     (if username_re_match (drop 1 raw)
      then Inr \<lparr>value = drop 1 raw, date = d, details = det, is_strikethrough = st\<rparr>
      else Inl (InvalidUsernameError
             (''Invalid username format: '' @ py_repr (drop 1 raw) @ ''. ''
              @ ''Must be 5-32 characters, alphanumeric and underscore only.'')))"
  using assms by (simp add: UsernameValue_new_def UsernameValue_post_init_def)

lemma get_usernames_loop_step:
  "get_usernames_loop (fv # rest) acc =
     (if is_valid_handle_item fv then get_usernames_loop rest (acc @ [handle_of_item fv])
      else get_usernames_loop rest acc)"
proof (cases "py_startswith (stripped_text fv) ''@''")
  case False
  then show ?thesis
    by (simp add: is_valid_handle_item_def stripped_text_def)
next
  case True
  note new = UsernameValue_new_marker [OF True, of "fv_datetime_obj fv" "fv_details fv" "fv_is_strikethrough fv"]
  show ?thesis
  proof (cases "username_re_match (drop 1 (stripped_text fv))")
    case valid: True
    have "is_valid_handle_item fv"
      using True valid by (simp add: is_valid_handle_item_def)
    moreover have "get_usernames_loop (fv # rest) acc = get_usernames_loop rest (acc @ [handle_of_item fv])"
      using True new valid
      by (simp add: stripped_text_def [symmetric] handle_of_item_def)
    ultimately show ?thesis by simp
  next
    case invalid: False
    have "\<not> is_valid_handle_item fv"
      using invalid by (simp add: is_valid_handle_item_def)
    moreover have "get_usernames_loop (fv # rest) acc = get_usernames_loop rest acc"
      using True new invalid
      by (simp add: stripped_text_def [symmetric])
    ultimately show ?thesis by simp
  qed
qed

lemma get_usernames_loop_eq:
  "get_usernames_loop fvs acc = Inr (acc @ map handle_of_item (filter is_valid_handle_item fvs))"
proof (induction fvs arbitrary: acc)
  case Nil
  show ?case by simp
next
  case (Cons fv rest)
  show ?case
    by (simp only: get_usernames_loop_step Cons.IH) simp
qed

lemma get_usernames_total: "\<exists>c. get_usernames doc = Inr c"
  by (simp add: get_usernames_def get_usernames_loop_eq split: option.split)

text \<open>
  Claim C7. For every \<open>username\<close> field, \<open>get_usernames\<close> returns a collection and
  never raises; an item whose stripped text does not start with the marker \<open>@\<close>, or
  whose text after the marker fails the handle validation, contributes nothing, and the
  collection holds exactly the handles of the remaining items, one for each, in the
  order of construction. A field with the items \<open>@valid123\<close> and \<open>notahandle\<close> gives a
  collection of length one holding \<open>valid123\<close>.
\<close>

theorem get_usernames_projection:
  assumes "get_field doc ''username'' = Some f"
  shows "\<exists>c. get_usernames doc = Inr c
     \<and> values c = py_sorted_reverse sort_date_key
                    (map handle_of_item (filter is_valid_handle_item (field_values f)))
     \<and> set (values c) = handle_of_item ` {fv \<in> set (field_values f). is_valid_handle_item fv}
     \<and> length (values c) = length (filter is_valid_handle_item (field_values f))
     \<and> (\<forall>fv\<in>set (field_values f).
           \<not> py_startswith (stripped_text fv) ''@''
           \<or> \<not> username_re_match (drop 1 (stripped_text fv)) \<longrightarrow> \<not> is_valid_handle_item fv)"
proof -
  let ?hs = "map handle_of_item (filter is_valid_handle_item (field_values f))"
  have "get_usernames doc = Inr (HistoricalCollection_init ?hs)"
    using assms by (simp add: get_usernames_def get_usernames_loop_eq)
  moreover have "values (HistoricalCollection_init ?hs) = py_sorted_reverse sort_date_key ?hs"
    by (rule values_init)
  moreover have "set (py_sorted_reverse sort_date_key ?hs)
      = handle_of_item ` {fv \<in> set (field_values f). is_valid_handle_item fv}"
    by (simp add: set_py_sorted_reverse)
  moreover have "length (py_sorted_reverse sort_date_key ?hs)
      = length (filter is_valid_handle_item (field_values f))"
    by (simp add: length_py_sorted_reverse)
  moreover have "\<forall>fv\<in>set (field_values f).
           \<not> py_startswith (stripped_text fv) ''@''
           \<or> \<not> username_re_match (drop 1 (stripped_text fv)) \<longrightarrow> \<not> is_valid_handle_item fv"
    by (simp add: is_valid_handle_item_def)
  ultimately show ?thesis by simp
qed

theorem get_usernames_projection_witness:
  "map_sum id (\<lambda>c. map value (values c))
     (get_usernames \<lparr>get_field = (\<lambda>n. if n = ''username''
        then Some \<lparr>field_values =
          [\<lparr>fv_value = ''@valid123'', fv_datetime_obj = None, fv_details = None,
             fv_is_strikethrough = False, fv_link_url = None\<rparr>,
           \<lparr>fv_value = ''notahandle'', fv_datetime_obj = None, fv_details = None,
             fv_is_strikethrough = False, fv_link_url = None\<rparr>]\<rparr>
        else None), get_value = (\<lambda>n. None)\<rparr>)
   = Inr [''valid123'']"
proof -
  let ?a = "\<lparr>fv_value = ''@valid123'', fv_datetime_obj = None, fv_details = None,
             fv_is_strikethrough = False, fv_link_url = None\<rparr>"
  let ?b = "\<lparr>fv_value = ''notahandle'', fv_datetime_obj = None, fv_details = None,
             fv_is_strikethrough = False, fv_link_url = None\<rparr>"
  let ?f = "\<lparr>field_values = [?a, ?b]\<rparr>"
  let ?doc = "\<lparr>get_field = (\<lambda>n. if n = ''username'' then Some ?f else None),
       get_value = (\<lambda>n. None)\<rparr>"
  have sa: "stripped_text ?a = ''@valid123''"
    by (simp add: stripped_text_def py_strip_def py_strip_chars_def backquote_def py_isspace_def)
  have sb: "stripped_text ?b = ''notahandle''"
    by (simp add: stripped_text_def py_strip_def py_strip_chars_def backquote_def py_isspace_def)
  have va: "is_valid_handle_item ?a"
    unfolding is_valid_handle_item_def sa
    by (simp add: py_startswith_def username_re_match_def is_username_char_def re_dollar_def)
  have vb: "\<not> is_valid_handle_item ?b"
    unfolding is_valid_handle_item_def sb by (simp add: py_startswith_def)
  have ha: "handle_of_item ?a
      = \<lparr>value = ''valid123'', date = None, details = None, is_strikethrough = False\<rparr>"
    unfolding handle_of_item_def sa by simp
  have "get_field ?doc ''username'' = Some ?f" by simp
  from get_usernames_projection [OF this] obtain c where
    c: "get_usernames ?doc = Inr c"
       "values c = py_sorted_reverse sort_date_key
                    (map handle_of_item (filter is_valid_handle_item (field_values ?f)))"
    by blast
  from c(2) have "values c = [\<lparr>value = ''valid123'', date = None, details = None, is_strikethrough = False\<rparr>]"
    by (simp add: va vb ha py_sorted_reverse_def)
  with c(1) show ?thesis by simp
qed

lemma InviteValue_new_cases:
  "(\<exists>i. InviteValue_new raw d det st = Inr i)
   \<or> (\<exists>m. InviteValue_new raw d det st = Inl (InvalidInviteError m))"
  by (simp add: InviteValue_new_def InviteValue_post_init_def Let_def split: prod.split)

lemma get_invites_loop_total: "\<exists>r. get_invites_loop fvs acc = Inr r"
proof (induction fvs arbitrary: acc)
  case Nil
  show ?case by simp
next
  case (Cons fv rest)
  define raw_value where "raw_value =
     (case fv_link_url fv of
        Some l \<Rightarrow> (if l \<noteq> [] then Some l
                    else if fv_value fv \<noteq> []
                    then Some (py_strip (py_strip_chars backquote (fv_value fv)))
                    else None)
      | None \<Rightarrow> (if fv_value fv \<noteq> []
                   then Some (py_strip (py_strip_chars backquote (fv_value fv)))
                   else None))"
  have step: "get_invites_loop (fv # rest) acc =
      (case raw_value of
           None \<Rightarrow> get_invites_loop rest acc
         | Some raw \<Rightarrow>
             if raw = [] then get_invites_loop rest acc
             else if \<not> py_contains ''t.me/+'' raw \<and> \<not> py_startswith raw ''+''
             then get_invites_loop rest acc
             else
               (case InviteValue_new raw (fv_datetime_obj fv) (fv_details fv) (fv_is_strikethrough fv) of
                  Inr invite \<Rightarrow> get_invites_loop rest (acc @ [invite])
                | Inl (InvalidInviteError m) \<Rightarrow> get_invites_loop rest acc
                | Inl e \<Rightarrow> Inl e))"
    unfolding raw_value_def by (simp only: get_invites_loop.simps Let_def)
  show ?case
  proof (cases raw_value)
    case None
    then show ?thesis
      unfolding step using Cons.IH by simp
  next
    case (Some raw)
    from InviteValue_new_cases [of raw "fv_datetime_obj fv" "fv_details fv" "fv_is_strikethrough fv"]
    show ?thesis
    proof
      assume "\<exists>i. InviteValue_new raw (fv_datetime_obj fv) (fv_details fv) (fv_is_strikethrough fv) = Inr i"
      then obtain i where "InviteValue_new raw (fv_datetime_obj fv) (fv_details fv) (fv_is_strikethrough fv) = Inr i"
        by blast
      then show ?thesis
        unfolding step Some using Cons.IH by simp
    next
      assume "\<exists>m. InviteValue_new raw (fv_datetime_obj fv) (fv_details fv) (fv_is_strikethrough fv)
          = Inl (InvalidInviteError m)"
      then obtain m where "InviteValue_new raw (fv_datetime_obj fv) (fv_details fv) (fv_is_strikethrough fv)
          = Inl (InvalidInviteError m)"
        by blast
      then show ?thesis
        unfolding step Some using Cons.IH by simp
    qed
  qed
qed

lemma get_invites_total: "\<exists>c. get_invites doc = Inr c"
proof (cases "get_field doc ''invite''")
  case None
  then show ?thesis by (simp add: get_invites_def)
next
  case (Some f)
  from get_invites_loop_total [of "field_values f" "[]"] obtain r where
    "get_invites_loop (field_values f) [] = Inr r" by blast
  with Some show ?thesis by (simp add: get_invites_def)
qed

lemma get_type_cases:
  "(\<exists>t. get_type doc = Inr t)
   \<or> (\<exists>m. get_type doc = Inl (MissingFieldError m) \<and> m \<noteq> no_identifier_warning)
   \<or> (\<exists>m. get_type doc = Inl (InvalidTypeError m) \<and> m \<noteq> no_identifier_warning)"
  by (simp add: get_type_def no_identifier_warning_def Let_def split: option.split)

lemma get_id_cases:
  "(\<exists>i. get_id doc = Inr i)
   \<or> (\<exists>m. get_id doc = Inl (InvalidFieldError m) \<and> m \<noteq> no_identifier_warning)"
  by (simp add: get_id_def no_identifier_warning_def Let_def split: option.split)

lemma validate_type_part:
  "\<exists>w1. (case get_type doc of
            Inr t \<Rightarrow> Inr []
          | Inl (MissingFieldError m) \<Rightarrow> Inr [m]
          | Inl (InvalidTypeError m) \<Rightarrow> Inr [m]
          | Inl e \<Rightarrow> Inl e) = (Inr w1 :: error + string list)
        \<and> count_list w1 no_identifier_warning = 0"
  using get_type_cases [of doc] by (elim disjE exE conjE) simp_all

lemma validate_id_part:
  assumes "count_list w1 no_identifier_warning = 0"
  shows "\<exists>w2. (case get_id doc of
            Inr i \<Rightarrow> Inr w1
          | Inl e \<Rightarrow> if isinstance_InvalidFieldError e
                      then Inr (w1 @ [error_str e]) else Inl e) = (Inr w2 :: error + string list)
        \<and> count_list w2 no_identifier_warning = 0"
  using get_id_cases [of doc] assms by (elim disjE exE conjE) simp_all

lemma validate_has_id_part:
  "(case get_id doc of
      Inr i \<Rightarrow> Inr (i \<noteq> None)
    | Inl e \<Rightarrow> if isinstance_InvalidFieldError e then Inr False else Inl e)
   = (Inr (\<exists>n. get_id doc = Inr (Some n)) :: error + bool)"
  using get_id_cases [of doc] by (elim disjE exE conjE) auto

text \<open>
  Claim C8, as amended. For every document \<open>validate\<close> returns a list of warnings and
  never raises, and neither do the two history projections it calls. The list holds the
  no-identifier warning exactly once when \<open>get_id\<close> yields no integer (the \<open>id\<close> field is
  absent, or present but not parsable) and the handle history and the invite history
  are both empty; otherwise it does not hold it at all. In particular a document with a
  valid identifier gets no such warning.
\<close>

theorem validate_no_identifier:
  "\<exists>ws us invs. validate doc = Inr ws \<and> get_usernames doc = Inr us \<and> get_invites doc = Inr invs
     \<and> count_list ws no_identifier_warning
         = (if (\<forall>n. get_id doc \<noteq> Inr (Some n)) \<and> values us = [] \<and> values invs = []
            then 1 else 0)"
proof -
  from validate_type_part [of doc] obtain w1 where
    t: "(case get_type doc of
            Inr t \<Rightarrow> Inr []
          | Inl (MissingFieldError m) \<Rightarrow> Inr [m]
          | Inl (InvalidTypeError m) \<Rightarrow> Inr [m]
          | Inl e \<Rightarrow> Inl e) = (Inr w1 :: error + string list)"
    and c1: "count_list w1 no_identifier_warning = 0"
    by blast
  from validate_id_part [OF c1, of doc] obtain w2 where
    i: "(case get_id doc of
            Inr i \<Rightarrow> Inr w1
          | Inl e \<Rightarrow> if isinstance_InvalidFieldError e
                      then Inr (w1 @ [error_str e]) else Inl e) = (Inr w2 :: error + string list)"
    and c2: "count_list w2 no_identifier_warning = 0"
    by blast
  note h = validate_has_id_part [of doc]
  from get_usernames_total [of doc] obtain us where us: "get_usernames doc = Inr us" by blast
  from get_invites_total [of doc] obtain invs where invs: "get_invites doc = Inr invs" by blast
  have v: "validate doc =
      Inr (if \<not> (\<exists>n. get_id doc = Inr (Some n)) \<and> \<not> length (values us) > 0
              \<and> \<not> length (values invs) > 0
           then w2 @ [no_identifier_warning] else w2)"
    by (simp only: validate_def t i h us invs sum.case Let_def if_distrib [of Inr])
  have "count_list (if \<not> (\<exists>n. get_id doc = Inr (Some n)) \<and> \<not> length (values us) > 0
              \<and> \<not> length (values invs) > 0
           then w2 @ [no_identifier_warning] else w2) no_identifier_warning
       = (if (\<forall>n. get_id doc \<noteq> Inr (Some n)) \<and> values us = [] \<and> values invs = []
            then 1 else 0)"
    using c2 by simp
  with v us invs show ?thesis by simp
qed

theorem validate_no_identifier_witness:
  "(\<exists>ws. validate \<lparr>get_field = (\<lambda>n. None), get_value = (\<lambda>n. None)\<rparr> = Inr ws
        \<and> count_list ws no_identifier_warning = 1)
   \<and> (\<exists>ws. validate \<lparr>get_field = (\<lambda>n. None),
          get_value = (\<lambda>n. if n = ''id''
            then Some \<lparr>fv_value = ''123456'', fv_datetime_obj = None, fv_details = None,
                    fv_is_strikethrough = False, fv_link_url = None\<rparr>
            else None)\<rparr> = Inr ws
        \<and> count_list ws no_identifier_warning = 0)"
proof -
  let ?d0 = "\<lparr>get_field = (\<lambda>n. None), get_value = (\<lambda>n. None)\<rparr> :: Document"
  let ?d1 = "\<lparr>get_field = (\<lambda>n. None),
          get_value = (\<lambda>n. if n = ''id''
            then Some \<lparr>fv_value = ''123456'', fv_datetime_obj = None, fv_details = None,
                    fv_is_strikethrough = False, fv_link_url = None\<rparr>
            else None)\<rparr>"
  have id0: "get_id ?d0 = Inr None"
    by (simp add: get_id_def)
  have u0: "get_usernames ?d0 = Inr (HistoricalCollection_init [])"
    by (simp add: get_usernames_def)
  have i0: "get_invites ?d0 = Inr (HistoricalCollection_init [])"
    by (simp add: get_invites_def)
  have e: "values (HistoricalCollection_init ([] :: HistoricalValue list)) = []"
    "values (HistoricalCollection_init ([] :: InviteValue list)) = []"
    by (simp_all add: HistoricalCollection_init_def py_sorted_reverse_def)
  from validate_no_identifier [of ?d0] obtain ws us invs where
    w: "validate ?d0 = Inr ws" "get_usernames ?d0 = Inr us" "get_invites ?d0 = Inr invs"
       "count_list ws no_identifier_warning
         = (if (\<forall>n. get_id ?d0 \<noteq> Inr (Some n)) \<and> values us = [] \<and> values invs = []
            then 1 else 0)"
    by blast
  from w(2) u0 have "values us = []" using e(1) by simp
  moreover from w(3) i0 have "values invs = []" using e(2) by simp
  ultimately have "count_list ws no_identifier_warning = 1"
    using w(4) id0 by simp
  with w(1) have first: "\<exists>ws. validate ?d0 = Inr ws \<and> count_list ws no_identifier_warning = 1"
    by blast
  have id1: "get_id ?d1 = Inr (Some 123456)"
    by (simp add: get_id_def py_int_def py_int_isspace_def py_int_limited_def
        int_max_str_digits_def py_strip_def
        py_strip_chars_def backquote_def py_isspace_def py_isdigit_def digit_value_def)
  have "\<exists>ws. validate ?d1 = Inr ws \<and> count_list ws no_identifier_warning = 0"
    using validate_no_identifier [of ?d1] unfolding id1 by auto
  with first show ?thesis by blast
qed

text \<open>
  The claim as first stated fails for an identifier that is present but not parsable:
  the \<open>id\<close> field is not absent, yet the no-identifier warning is issued, after the
  warning about the format of the identifier.
\<close>

theorem validate_invalid_id_counterexample:
  "get_value \<lparr>get_field = (\<lambda>n. None),
      get_value = (\<lambda>n. if n = ''id''
        then Some \<lparr>fv_value = ''not_a_number'', fv_datetime_obj = None, fv_details = None,
                fv_is_strikethrough = False, fv_link_url = None\<rparr>
        else None)\<rparr> ''id'' \<noteq> None
   \<and> validate \<lparr>get_field = (\<lambda>n. None),
      get_value = (\<lambda>n. if n = ''id''
        then Some \<lparr>fv_value = ''not_a_number'', fv_datetime_obj = None, fv_details = None,
                fv_is_strikethrough = False, fv_link_url = None\<rparr>
        else None)\<rparr>
     = Inr [''Field 'type' is required'',
            ''Invalid ID format: '' @ [CHR 0x27] @ ''not_a_number'' @ [CHR 0x27],
            no_identifier_warning]"
proof -
  let ?d = "\<lparr>get_field = (\<lambda>n. None),
      get_value = (\<lambda>n. if n = ''id''
        then Some \<lparr>fv_value = ''not_a_number'', fv_datetime_obj = None, fv_details = None,
                fv_is_strikethrough = False, fv_link_url = None\<rparr>
        else None)\<rparr>"
  have t: "get_type ?d = Inl (MissingFieldError ''Field 'type' is required'')"
    by (simp add: get_type_def)
  have i: "get_id ?d = Inl (InvalidFieldError
      (''Invalid ID format: '' @ [CHR 0x27] @ ''not_a_number'' @ [CHR 0x27]))"
    by (simp add: get_id_def py_int_def py_int_isspace_def py_int_limited_def
        int_max_str_digits_def py_strip_def
        py_strip_chars_def backquote_def py_isspace_def py_isdigit_def py_repr_def
        py_repr_char_def Let_def)
  have u: "get_usernames ?d = Inr (HistoricalCollection_init [])"
    by (simp add: get_usernames_def)
  have v: "get_invites ?d = Inr (HistoricalCollection_init [])"
    by (simp add: get_invites_def)
  have e: "values (HistoricalCollection_init ([] :: HistoricalValue list)) = []"
    "values (HistoricalCollection_init ([] :: InviteValue list)) = []"
    by (simp_all add: HistoricalCollection_init_def py_sorted_reverse_def)
  have "validate ?d = Inr [''Field 'type' is required'',
            ''Invalid ID format: '' @ [CHR 0x27] @ ''not_a_number'' @ [CHR 0x27],
            no_identifier_warning]"
    unfolding validate_def t i u v by (simp add: e)
  then show ?thesis by simp
qed

end
